theory Spec2Isabelle
  imports Complex_Main
begin

section \<open>Table reconstruction from positioned text fragments\<close>

text \<open>
  The development embeds the two table extractors of \<^verbatim>\<open>backend/test.py\<close>
  (\<^verbatim>\<open>extract_pdf_tables\<close>, the basic mode, which also lives as a method in
  \<^verbatim>\<open>backend/services/loading_service.py\<close>, and \<^verbatim>\<open>extract_pdf_tables_enhanced\<close>,
  the column-exact mode). Coordinates are Python floats; they are modelled as reals, so
  NaN and rounding are outside the model. A Python string is modelled as a \<^typ>\<open>string\<close>,
  so the characters are the code points below 256.
\<close>

subsection \<open>Python string primitives\<close>

text \<open>\<^verbatim>\<open>str.isspace\<close> on one character, which is also what \<^verbatim>\<open>\s\<close> matches in
  \<^verbatim>\<open>re\<close> on a \<^verbatim>\<open>str\<close> pattern: the white space among the code points below 256.\<close>

definition isspace :: "char \<Rightarrow> bool" where
  "isspace c \<longleftrightarrow>
     c \<in> set [CHR 0x09, CHR 0x0A, CHR 0x0B, CHR 0x0C, CHR 0x0D, CHR 0x1C, CHR 0x1D,
              CHR 0x1E, CHR 0x1F, CHR 0x20, CHR 0x85, CHR 0xA0]"

text \<open>\<^verbatim>\<open>s.strip()\<close>.\<close>

definition strip :: "string \<Rightarrow> string" where
  "strip s = rev (dropWhile isspace (rev (dropWhile isspace s)))"

text \<open>\<^verbatim>\<open>re.sub(r'\s+', ' ', s)\<close>: every maximal run of white space becomes one space.\<close>

function re_sub_ws :: "string \<Rightarrow> string" where
  "re_sub_ws [] = []"
| "re_sub_ws (c # cs) =
     (if isspace c then CHR '' '' # re_sub_ws (dropWhile isspace cs)
      else c # re_sub_ws cs)"
  by pat_completeness auto
termination
  by (relation "measure length") (auto simp: length_dropWhile_le less_Suc_eq_le)

text \<open>\<^verbatim>\<open>sep.join(xs)\<close>.\<close>

fun join :: "string \<Rightarrow> string list \<Rightarrow> string" where
  "join sep [] = []"
| "join sep [x] = x"
| "join sep (x # y # ys) = x @ sep @ join sep (y # ys)"

text \<open>\<^verbatim>\<open>s.split(sep)\<close> for a separator of one character: the pieces between the
  occurrences of the separator, empty pieces included.\<close>

fun split :: "char \<Rightarrow> string \<Rightarrow> string list" where
  "split sep [] = [[]]"
| "split sep (c # cs) =
     (if c = sep then [] # split sep cs
      else (case split sep cs of
              [] \<Rightarrow> [[c]]
            | p # ps \<Rightarrow> (c # p) # ps))"

subsection \<open>Data model\<close>

text \<open>The layout elements of a page, as the code tells them apart by \<^verbatim>\<open>isinstance\<close>:
  a text container with the result of \<^verbatim>\<open>get_text()\<close> and its \<^verbatim>\<open>bbox\<close>
  \<open>(x0, y0, x1, y1)\<close>, a rectangle or a line with its \<^verbatim>\<open>bbox\<close>, or anything else.\<close>

datatype element =
    LTTextContainer string real real real real
  | LTRect real real real real
  | LTLine real real real real
  | LTOther

text \<open>The dictionary built for each text container. The basic mode also stores
  \<^verbatim>\<open>page_height\<close>, which nothing reads; it is left out.\<close>

record text_element =
  text' :: string
  x0 :: real
  y0 :: real
  x1 :: real
  y1 :: real

type_synonym page_layout = "element list"

text \<open>The first loop over a page: \<^verbatim>\<open>text = element.get_text().strip()\<close>, kept
  \<^verbatim>\<open>if text\<close>. The list \<^verbatim>\<open>line_elements\<close> of the basic mode is filled and never
  read; it is left out.\<close>

fun collect_text_elements :: "page_layout \<Rightarrow> text_element list" where
  "collect_text_elements [] = []"
| "collect_text_elements (LTTextContainer s a b c d # es) =
     (let t = strip s
      in if t \<noteq> []
         then \<lparr>text' = t, x0 = a, y0 = b, x1 = c, y1 = d\<rparr> # collect_text_elements es
         else collect_text_elements es)"
| "collect_text_elements (_ # es) = collect_text_elements es"

subsection \<open>Serializer\<close>

definition tab :: char where
  "tab = CHR 0x09"

definition newline :: char where
  "newline = CHR 0x0A"

text \<open>\<^verbatim>\<open>row_str = "\t " + " \t ".join(row) + " \t"\<close>.\<close>

definition row_str :: "string list \<Rightarrow> string" where
  "row_str row = [tab, CHR '' ''] @ join [CHR '' '', tab, CHR '' ''] row @ [CHR '' '', tab]"

text \<open>The last loop of both extractors: \<^verbatim>\<open>result_strings.append(row_str)\<close> for each
  row of \<^verbatim>\<open>all_tables_data\<close>.\<close>

fun result_strings_loop :: "string list \<Rightarrow> string list list \<Rightarrow> string list" where
  "result_strings_loop result_strings [] = result_strings"
| "result_strings_loop result_strings (row # rows) =
     result_strings_loop (result_strings @ [row_str row]) rows"

subsection \<open>Basic mode: \<^verbatim>\<open>extract_pdf_tables\<close>\<close>

definition row_threshold :: real where
  "row_threshold = 5"

text \<open>One iteration of \<^verbatim>\<open>for text in text_elements\<close>; the state is
  \<^verbatim>\<open>(rows, current_row, row_y)\<close>, with \<^verbatim>\<open>row_y\<close> starting as \<^verbatim>\<open>None\<close>.\<close>

fun row_step ::
  "text_element list list \<times> text_element list \<times> real option \<Rightarrow> text_element \<Rightarrow>
   text_element list list \<times> text_element list \<times> real option" where
  "row_step (rows, current_row, None) t = (rows, current_row @ [t], Some (y0 t))"
| "row_step (rows, current_row, Some row_y) t =
     (if \<bar>y0 t - row_y\<bar> < row_threshold then (rows, current_row @ [t], Some row_y)
      else ((if current_row \<noteq> [] then rows @ [current_row] else rows), [t], Some (y0 t)))"

text \<open>The whole loop, followed by \<^verbatim>\<open>if current_row: rows.append(current_row)\<close>.\<close>

definition group_rows :: "text_element list \<Rightarrow> text_element list list" where
  "group_rows text_elements =
     (case foldl row_step ([], [], None) text_elements of
        (rows, current_row, row_y) \<Rightarrow>
          if current_row \<noteq> [] then rows @ [current_row] else rows)"

text \<open>\<^verbatim>\<open>text_elements.sort(key=lambda x: -x['y0'])\<close> and the grouping. Python's sort
  is stable, as \<^const>\<open>sort_key\<close> is.\<close>

definition rows_basic :: "text_element list \<Rightarrow> text_element list list" where
  "rows_basic text_elements = group_rows (sort_key (\<lambda>x. - y0 x) text_elements)"

text \<open>\<^verbatim>\<open>for cell in row\<close>: the cleaned text of each cell, kept when it is not empty.\<close>

fun row_data_basic :: "text_element list \<Rightarrow> string list" where
  "row_data_basic [] = []"
| "row_data_basic (cell # row) =
     (let clean_text = strip (re_sub_ws (text' cell))
      in if clean_text \<noteq> [] then clean_text # row_data_basic row else row_data_basic row)"

text \<open>\<^verbatim>\<open>for row in rows\<close>, after each row was sorted by \<^verbatim>\<open>x0\<close>: a row is kept when
  its \<^verbatim>\<open>row_data\<close> is not empty.\<close>

fun page_tables_loop :: "string list list \<Rightarrow> text_element list list \<Rightarrow> string list list" where
  "page_tables_loop page_tables [] = page_tables"
| "page_tables_loop page_tables (row # rows) =
     (let row_data = row_data_basic row
      in if row_data \<noteq> [] then page_tables_loop (page_tables @ [row_data]) rows
         else page_tables_loop page_tables rows)"

definition page_tables_basic :: "text_element list \<Rightarrow> string list list" where
  "page_tables_basic text_elements =
     page_tables_loop [] (map (sort_key x0) (rows_basic text_elements))"

text \<open>\<^verbatim>\<open>for page_layout in extract_pages(pdf_path)\<close>: a page without text elements is
  skipped by \<^verbatim>\<open>continue\<close>; otherwise its rows extend \<^verbatim>\<open>all_tables_data\<close>.\<close>

fun pages_loop_basic :: "string list list \<Rightarrow> page_layout list \<Rightarrow> string list list" where
  "pages_loop_basic all_tables_data [] = all_tables_data"
| "pages_loop_basic all_tables_data (page_layout # pages) =
     (let text_elements = collect_text_elements page_layout
      in if text_elements = [] then pages_loop_basic all_tables_data pages
         else (let page_tables = page_tables_basic text_elements
               in if page_tables \<noteq> []
                  then pages_loop_basic (all_tables_data @ page_tables) pages
                  else pages_loop_basic all_tables_data pages))"

text \<open>The method of \<^verbatim>\<open>loading_service.py\<close> returns the list \<^verbatim>\<open>result_strings\<close>;
  the function of \<^verbatim>\<open>test.py\<close> returns \<^verbatim>\<open>"\n".join(result_strings)\<close>.\<close>

definition extract_pdf_tables_service :: "page_layout list \<Rightarrow> string list" where
  "extract_pdf_tables_service pages = result_strings_loop [] (pages_loop_basic [] pages)"

definition extract_pdf_tables :: "page_layout list \<Rightarrow> string" where
  "extract_pdf_tables pages =
     join [newline] (result_strings_loop [] (pages_loop_basic [] pages))"

subsection \<open>Column-exact mode: \<^verbatim>\<open>extract_pdf_tables_enhanced\<close>\<close>

text \<open>One iteration of \<^verbatim>\<open>for i, text in enumerate(text_elements)\<close>; the state is
  \<^verbatim>\<open>(rows, current_row)\<close>.\<close>

fun row_step_enhanced ::
  "text_element list list \<times> text_element list \<Rightarrow> text_element \<Rightarrow>
   text_element list list \<times> text_element list" where
  "row_step_enhanced (rows, current_row) t =
     (if current_row = [] then (rows, current_row @ [t])
      else (let last_text = last current_row;
                y_diff = \<bar>y0 t - y0 last_text\<bar>
            in if y_diff < 8 then (rows, current_row @ [t])
               else (rows @ [current_row], [t])))"

definition group_rows_enhanced :: "text_element list \<Rightarrow> text_element list list" where
  "group_rows_enhanced text_elements =
     (case foldl row_step_enhanced ([], []) text_elements of
        (rows, current_row) \<Rightarrow> if current_row \<noteq> [] then rows @ [current_row] else rows)"

definition rows_enhanced :: "text_element list \<Rightarrow> text_element list list" where
  "rows_enhanced text_elements = group_rows_enhanced (sort_key (\<lambda>x. - y0 x) text_elements)"

text \<open>A column is the Python list \<^verbatim>\<open>[col[0], col[1]]\<close>, modelled as a pair.\<close>

type_synonym col = "real \<times> real"

text \<open>\<^verbatim>\<open>for col in column_boundaries\<close> with its \<^verbatim>\<open>break\<close>: the first column that
  takes the text is extended in place; \<^const>\<open>None\<close> stands for \<^verbatim>\<open>found\<close> staying
  \<^verbatim>\<open>False\<close>.\<close>

fun extend_found :: "col list \<Rightarrow> text_element \<Rightarrow> col list option" where
  "extend_found [] t = None"
| "extend_found (col # cols) t =
     (if x0 t \<ge> fst col - 5 \<and> x0 t \<le> snd col + 5
      then Some ((min (fst col) (x0 t), max (snd col) (x1 t)) # cols)
      else map_option ((#) col) (extend_found cols t))"

text \<open>The body of \<^verbatim>\<open>for text in row\<close> in the discovery of the columns.\<close>

definition boundary_step :: "col list \<Rightarrow> text_element \<Rightarrow> col list" where
  "boundary_step column_boundaries t =
     (if column_boundaries = [] then column_boundaries @ [(x0 t, x1 t)]
      else (case extend_found column_boundaries t of
              Some cbs \<Rightarrow> cbs
            | None \<Rightarrow> column_boundaries @ [(x0 t, x1 t)]))"

definition column_boundaries :: "text_element list list \<Rightarrow> col list" where
  "column_boundaries rows = foldl (\<lambda>cbs row. foldl boundary_step cbs row) [] rows"

text \<open>One iteration of \<^verbatim>\<open>for col in column_boundaries\<close> in the merge; \<^verbatim>\<open>last_col\<close> is
  \<^verbatim>\<open>merged_columns[-1]\<close>, updated in place.\<close>

definition merge_step :: "col list \<Rightarrow> col \<Rightarrow> col list" where
  "merge_step merged_columns col =
     (if merged_columns = [] then merged_columns @ [col]
      else (let last_col = last merged_columns
            in if fst col \<le> snd last_col + 10
               then butlast merged_columns @ [(fst last_col, max (snd last_col) (snd col))]
               else merged_columns @ [col]))"

text \<open>\<^verbatim>\<open>column_boundaries.sort(key=lambda x: x[0])\<close> and the merge loop.\<close>

definition merged_columns :: "col list \<Rightarrow> col list" where
  "merged_columns cbs = foldl merge_step [] (sort_key fst cbs)"

text \<open>\<^verbatim>\<open>for i, col in enumerate(merged_columns)\<close> with its \<^verbatim>\<open>break\<close>, for one text:
  the first column that holds the text receives it. The index \<open>i\<close> stays below the
  length of \<^verbatim>\<open>row_data\<close>, which is the number of columns, so \<^verbatim>\<open>row_data[i]\<close> never
  raises.\<close>

fun place_text :: "col list \<Rightarrow> nat \<Rightarrow> string list \<Rightarrow> text_element \<Rightarrow> string list" where
  "place_text [] i row_data t = row_data"
| "place_text (col # cols) i row_data t =
     (if x0 t \<ge> fst col - 5 \<and> x1 t \<le> snd col + 5
      then (if row_data ! i \<noteq> []
            then row_data[i := row_data ! i @ CHR '' '' # text' t]
            else row_data[i := text' t])
      else place_text cols (Suc i) row_data t)"

text \<open>The body of \<^verbatim>\<open>for row in rows\<close>: \<^verbatim>\<open>row.sort(key=lambda x: x['x0'])\<close>,
  \<^verbatim>\<open>row_data = [''] * len(merged_columns)\<close>, the placement of every text, and
  \<^verbatim>\<open>[cell.strip() for cell in row_data if cell.strip()]\<close>.\<close>

definition row_data_enhanced :: "col list \<Rightarrow> text_element list \<Rightarrow> string list" where
  "row_data_enhanced merged row =
     (let row_data = foldl (place_text merged 0) (replicate (length merged) []) (sort_key x0 row)
      in map strip (filter (\<lambda>cell. strip cell \<noteq> []) row_data))"

fun processed_rows_loop ::
  "col list \<Rightarrow> string list list \<Rightarrow> text_element list list \<Rightarrow> string list list" where
  "processed_rows_loop merged processed_rows [] = processed_rows"
| "processed_rows_loop merged processed_rows (row # rows) =
     (let row_data = row_data_enhanced merged row
      in if row_data \<noteq> [] then processed_rows_loop merged (processed_rows @ [row_data]) rows
         else processed_rows_loop merged processed_rows rows)"

definition processed_rows_enhanced :: "text_element list \<Rightarrow> string list list" where
  "processed_rows_enhanced text_elements =
     (let rows = rows_enhanced text_elements;
          merged = merged_columns (column_boundaries rows)
      in processed_rows_loop merged [] rows)"

fun pages_loop_enhanced :: "string list list \<Rightarrow> page_layout list \<Rightarrow> string list list" where
  "pages_loop_enhanced all_tables_data [] = all_tables_data"
| "pages_loop_enhanced all_tables_data (page_layout # pages) =
     (let text_elements = collect_text_elements page_layout
      in if text_elements = [] then pages_loop_enhanced all_tables_data pages
         else pages_loop_enhanced (all_tables_data @ processed_rows_enhanced text_elements) pages)"

text \<open>The parameter \<^verbatim>\<open>min_column_width\<close> is never read.\<close>

definition extract_pdf_tables_enhanced :: "page_layout list \<Rightarrow> string" where
  "extract_pdf_tables_enhanced pages =
     join [newline] (result_strings_loop [] (pages_loop_enhanced [] pages))"

subsection \<open>The specification's wording, for comparison with the code\<close>

text \<open>The index of the first element of a list that satisfies a predicate, scanning
  from the left.\<close>

fun first_index :: "('a \<Rightarrow> bool) \<Rightarrow> 'a list \<Rightarrow> nat option" where
  "first_index P [] = None"
| "first_index P (x # xs) = (if P x then Some 0 else map_option Suc (first_index P xs))"

text \<open>Interval discovery in the specification's words: an interval takes a fragment when
  its range widened by 5 on both sides contains the fragment's \<^verbatim>\<open>x0\<close>; the first such
  interval is extended to the minimum of the left ends and the maximum of the right ends,
  and a fragment that no interval takes starts a new interval.\<close>

definition takes_x0 :: "col \<Rightarrow> text_element \<Rightarrow> bool" where
  "takes_x0 iv t \<longleftrightarrow> fst iv - 5 \<le> x0 t \<and> x0 t \<le> snd iv + 5"

definition spec_discovery_step :: "col list \<Rightarrow> text_element \<Rightarrow> col list" where
  "spec_discovery_step ivs t =
     (case first_index (\<lambda>iv. takes_x0 iv t) ivs of
        Some i \<Rightarrow> ivs[i := (min (fst (ivs ! i)) (x0 t), max (snd (ivs ! i)) (x1 t))]
      | None \<Rightarrow> ivs @ [(x0 t, x1 t)])"

definition spec_interval_discovery :: "text_element list list \<Rightarrow> col list" where
  "spec_interval_discovery rows = foldl spec_discovery_step [] (concat rows)"

text \<open>Interval merge in the specification's words, on a list sorted by the left end: the
  current interval is merged into the previous one exactly when its left end is at most
  the previous right end plus 10, and the previous right end becomes the maximum of the
  two right ends.\<close>

fun spec_merge_sorted :: "col list \<Rightarrow> col list" where
  "spec_merge_sorted [] = []"
| "spec_merge_sorted [previous] = [previous]"
| "spec_merge_sorted (previous # current # ivs) =
     (if fst current \<le> snd previous + 10
      then spec_merge_sorted ((fst previous, max (snd previous) (snd current)) # ivs)
      else previous # spec_merge_sorted (current # ivs))"

definition spec_interval_merge :: "col list \<Rightarrow> col list" where
  "spec_interval_merge ivs = spec_merge_sorted (sort_key fst ivs)"

text \<open>No two neighbours of an interval list are within the merge tolerance of 10.\<close>

fun gapped :: "col list \<Rightarrow> bool" where
  "gapped (p # c # ivs) \<longleftrightarrow> \<not> fst c \<le> snd p + 10 \<and> gapped (c # ivs)"
| "gapped _ \<longleftrightarrow> True"

text \<open>Row assembly in the specification's words: an interval holds a fragment when the
  fragment's \<^verbatim>\<open>x0\<close> is at least the left end minus 5 and its \<^verbatim>\<open>x1\<close> at most the
  right end plus 5. The slot of column \<open>i\<close> is the texts of the fragments whose first
  holding interval is \<open>i\<close>, in ascending \<^verbatim>\<open>x0\<close> order, separated by one space; a
  fragment that no interval holds is in no slot. The cells of the row are the slots that
  are not empty.\<close>

definition holds_text :: "col \<Rightarrow> text_element \<Rightarrow> bool" where
  "holds_text iv t \<longleftrightarrow> fst iv - 5 \<le> x0 t \<and> x1 t \<le> snd iv + 5"

definition spec_slot :: "col list \<Rightarrow> text_element list \<Rightarrow> nat \<Rightarrow> string" where
  "spec_slot ivs row i =
     join [CHR '' '']
       (map text' (filter (\<lambda>t. first_index (\<lambda>iv. holds_text iv t) ivs = Some i) row))"

definition spec_row_cells :: "col list \<Rightarrow> text_element list \<Rightarrow> string list" where
  "spec_row_cells ivs row =
     filter (\<lambda>cell. cell \<noteq> []) (map (spec_slot ivs (sort_key x0 row)) [0..<length ivs])"

text \<open>The consumer of the specification's round trip: the row string is split at the
  tab character, and the first and the last token are discarded when they are empty.\<close>

definition discard_empty_ends :: "string list \<Rightarrow> string list" where
  "discard_empty_ends tokens =
     (let tokens1 = (if tokens \<noteq> [] \<and> hd tokens = [] then tl tokens else tokens)
      in if tokens1 \<noteq> [] \<and> last tokens1 = [] then butlast tokens1 else tokens1)"

definition row_tokens :: "string \<Rightarrow> string list" where
  "row_tokens s = discard_empty_ends (split tab s)"

text \<open>Row clustering of the column-exact mode in the specification's words, on the
  fragments in descending \<^verbatim>\<open>y0\<close> order: the chaining is pairwise-consecutive, so a
  fragment stays in the row of the fragment just before it exactly when their \<^verbatim>\<open>y0\<close>
  differ by less than 8, and it opens a new row otherwise.\<close>

fun spec_chained_rows :: "text_element list \<Rightarrow> text_element list list" where
  "spec_chained_rows [] = []"
| "spec_chained_rows [previous] = [[previous]]"
| "spec_chained_rows (previous # t # ts) =
     (if \<bar>y0 t - y0 previous\<bar> < 8
      then (case spec_chained_rows (t # ts) of
              [] \<Rightarrow> [[previous]]
            | row # rows \<Rightarrow> (previous # row) # rows)
      else [previous] # spec_chained_rows (t # ts))"

section \<open>Properties\<close>

subsection \<open>The iterations in closed form\<close>

lemma result_strings_loop_eq:
  "result_strings_loop acc rows = acc @ map row_str rows"
  by (induction rows arbitrary: acc) simp_all

lemma page_tables_loop_eq:
  "page_tables_loop acc rows = acc @ filter (\<lambda>rd. rd \<noteq> []) (map row_data_basic rows)"
  by (induction rows arbitrary: acc) (simp_all add: Let_def)

lemma pages_loop_basic_eq:
  "pages_loop_basic acc pages =
     acc @ concat (map (\<lambda>p. page_tables_basic (collect_text_elements p)) pages)"
proof (induction pages arbitrary: acc)
  case Nil
  show ?case by simp
next
  case (Cons p ps)
  have empty_page: "page_tables_basic [] = []"
    by (simp add: page_tables_basic_def rows_basic_def group_rows_def)
  show ?case
    by (cases "collect_text_elements p = []") (simp_all add: Cons.IH Let_def empty_page)
qed

lemma processed_rows_loop_eq:
  "processed_rows_loop m acc rows =
     acc @ filter (\<lambda>rd. rd \<noteq> []) (map (row_data_enhanced m) rows)"
  by (induction rows arbitrary: acc) (simp_all add: Let_def)

lemma processed_rows_enhanced_Nil: "processed_rows_enhanced [] = []"
  by (simp add: processed_rows_enhanced_def rows_enhanced_def group_rows_enhanced_def)

lemma pages_loop_enhanced_eq:
  "pages_loop_enhanced acc pages =
     acc @ concat (map (\<lambda>p. processed_rows_enhanced (collect_text_elements p)) pages)"
proof (induction pages arbitrary: acc)
  case Nil
  show ?case by simp
next
  case (Cons p ps)
  show ?case
    by (cases "collect_text_elements p = []")
       (simp_all add: Cons.IH Let_def processed_rows_enhanced_Nil)
qed

subsection \<open>Serializer\<close>

lemma join_Cons: "join sep (c # cs) = c @ concat (map (\<lambda>d. sep @ d) cs)"
  by (induction cs arbitrary: c) simp_all

text \<open>
  Claim C2. A row with the cells \<open>c, cs\<close> is written as tab, space, \<open>c\<close>, then space,
  tab, space and the cell for every further cell, then space, tab. The result of
  \<^verbatim>\<open>extract_pdf_tables\<close> is these row strings joined by newlines, the rows of the pages
  in the order of the pages; the method of the loading service returns the same row
  strings as a list, and the column-exact extractor joins its rows the same way.
\<close>

theorem serializer_layout:
  "row_str (c # cs) =
     [tab, CHR '' ''] @ c @ concat (map (\<lambda>d. [CHR '' '', tab, CHR '' ''] @ d) cs)
       @ [CHR '' '', tab]
   \<and> extract_pdf_tables pages =
       join [newline]
         (map row_str (concat (map (\<lambda>p. page_tables_basic (collect_text_elements p)) pages)))
   \<and> extract_pdf_tables_service pages =
       map row_str (concat (map (\<lambda>p. page_tables_basic (collect_text_elements p)) pages))
   \<and> extract_pdf_tables_enhanced pages =
       join [newline]
         (map row_str
           (concat (map (\<lambda>p. processed_rows_enhanced (collect_text_elements p)) pages)))"
  by (simp add: row_str_def join_Cons extract_pdf_tables_def extract_pdf_tables_service_def
      extract_pdf_tables_enhanced_def result_strings_loop_eq pages_loop_basic_eq
      pages_loop_enhanced_eq)

subsection \<open>Row clusterer, basic mode\<close>

lemma row_step_pinned:
  assumes "\<forall>r\<in>set rows. \<forall>f\<in>set r. \<bar>y0 f - y0 (hd r)\<bar> < 5"
    and "case ry of None \<Rightarrow> cur = []
         | Some v \<Rightarrow> cur \<noteq> [] \<and> v = y0 (hd cur) \<and> (\<forall>f\<in>set cur. \<bar>y0 f - v\<bar> < 5)"
    and "foldl row_step (rows, cur, ry) ts = (rows', cur', ry')"
  shows "(\<forall>r\<in>set rows'. \<forall>f\<in>set r. \<bar>y0 f - y0 (hd r)\<bar> < 5)
       \<and> (\<forall>f\<in>set cur'. \<bar>y0 f - y0 (hd cur')\<bar> < 5)"
  using assms
proof (induction ts arbitrary: rows cur ry)
  case Nil
  then show ?case by (auto split: option.splits)
next
  case (Cons t ts)
  show ?case
  proof (cases ry)
    case None
    with Cons.prems have step: "row_step (rows, cur, ry) t = (rows, [t], Some (y0 t))"
      by simp
    with Cons.prems(3) have f: "foldl row_step (rows, [t], Some (y0 t)) ts = (rows', cur', ry')"
      by simp
    show ?thesis
      by (rule Cons.IH [OF _ _ f]) (use Cons.prems in \<open>simp_all\<close>)
  next
    case (Some v)
    show ?thesis
    proof (cases "\<bar>y0 t - v\<bar> < row_threshold")
      case True
      with Some have step: "row_step (rows, cur, ry) t = (rows, cur @ [t], Some v)"
        by simp
      with Cons.prems(3) have f: "foldl row_step (rows, cur @ [t], Some v) ts = (rows', cur', ry')"
        by simp
      show ?thesis
        by (rule Cons.IH [OF _ _ f])
           (use Cons.prems Some True in \<open>auto simp: row_threshold_def\<close>)
    next
      case False
      with Some Cons.prems have step:
        "row_step (rows, cur, ry) t = (rows @ [cur], [t], Some (y0 t))"
        by simp
      with Cons.prems(3) have f:
        "foldl row_step (rows @ [cur], [t], Some (y0 t)) ts = (rows', cur', ry')"
        by simp
      show ?thesis
        by (rule Cons.IH [OF _ _ f]) (use Cons.prems Some in \<open>auto\<close>)
    qed
  qed
qed

text \<open>
  Claim C3. In the basic mode the threshold is 5, and in every row that the grouping loop
  produces, from any sequence of text elements, every member \<open>f\<close> has
  \<open>\<bar>y0 f - y0 (hd row)\<bar> < 5\<close>: the reference \<^verbatim>\<open>row_y\<close> is the \<^verbatim>\<open>y0\<close> of the first
  member of the row and does not change while the row grows.
\<close>

theorem basic_rows_pinned:
  assumes "row \<in> set (group_rows text_elements)" and "f \<in> set row"
  shows "\<bar>y0 f - y0 (hd row)\<bar> < 5"
proof -
  obtain rows cur ry where fold: "foldl row_step ([], [], None) text_elements = (rows, cur, ry)"
    by (metis prod_cases3)
  have inv: "(\<forall>r\<in>set rows. \<forall>f\<in>set r. \<bar>y0 f - y0 (hd r)\<bar> < 5)
       \<and> (\<forall>f\<in>set cur. \<bar>y0 f - y0 (hd cur)\<bar> < 5)"
    by (rule row_step_pinned [OF _ _ fold]) simp_all
  from assms(1) fold have "row \<in> set rows \<or> row = cur"
    by (auto simp: group_rows_def split: if_splits)
  with inv assms(2) show ?thesis by blast
qed

theorem basic_rows_pinned_witness:
  "[\<lparr>text' = ''a'', x0 = 10, y0 = 100, x1 = 20, y1 = 110\<rparr>,
    \<lparr>text' = ''b'', x0 = 60, y0 = 103, x1 = 70, y1 = 113\<rparr>]
     \<in> set (group_rows
         [\<lparr>text' = ''a'', x0 = 10, y0 = 100, x1 = 20, y1 = 110\<rparr>,
          \<lparr>text' = ''b'', x0 = 60, y0 = 103, x1 = 70, y1 = 113\<rparr>,
          \<lparr>text' = ''c'', x0 = 10, y0 = 90, x1 = 20, y1 = 99\<rparr>])
   \<and> \<bar>y0 \<lparr>text' = ''b'', x0 = 60, y0 = 103, x1 = 70, y1 = 113\<rparr>
       - y0 (hd [\<lparr>text' = ''a'', x0 = 10, y0 = 100, x1 = 20, y1 = 110\<rparr>,
                 \<lparr>text' = ''b'', x0 = 60, y0 = 103, x1 = 70, y1 = 113\<rparr>])\<bar> < 5"
proof -
  have mem: "[\<lparr>text' = ''a'', x0 = 10, y0 = 100, x1 = 20, y1 = 110\<rparr>,
    \<lparr>text' = ''b'', x0 = 60, y0 = 103, x1 = 70, y1 = 113\<rparr>]
     \<in> set (group_rows
         [\<lparr>text' = ''a'', x0 = 10, y0 = 100, x1 = 20, y1 = 110\<rparr>,
          \<lparr>text' = ''b'', x0 = 60, y0 = 103, x1 = 70, y1 = 113\<rparr>,
          \<lparr>text' = ''c'', x0 = 10, y0 = 90, x1 = 20, y1 = 99\<rparr>])"
    by (simp add: group_rows_def row_threshold_def)
  show ?thesis
    using mem basic_rows_pinned [OF mem, of "\<lparr>text' = ''b'', x0 = 60, y0 = 103, x1 = 70, y1 = 113\<rparr>"]
    by simp
qed

lemma row_step_one_sided:
  assumes "\<forall>r\<in>set rows. \<forall>f\<in>set r. 0 \<le> y0 (hd r) - y0 f \<and> y0 (hd r) - y0 f < 5"
    and "case ry of None \<Rightarrow> cur = []
         | Some v \<Rightarrow> cur \<noteq> [] \<and> v = y0 (hd cur)
             \<and> (\<forall>f\<in>set cur. 0 \<le> v - y0 f \<and> v - y0 f < 5)
             \<and> (\<forall>t\<in>set ts. y0 t \<le> v)"
    and "sorted (map (\<lambda>x. - y0 x) ts)"
    and "foldl row_step (rows, cur, ry) ts = (rows', cur', ry')"
  shows "(\<forall>r\<in>set rows'. \<forall>f\<in>set r. 0 \<le> y0 (hd r) - y0 f \<and> y0 (hd r) - y0 f < 5)
       \<and> (\<forall>f\<in>set cur'. 0 \<le> y0 (hd cur') - y0 f \<and> y0 (hd cur') - y0 f < 5)"
  using assms
proof (induction ts arbitrary: rows cur ry)
  case Nil
  then show ?case by (auto split: option.splits)
next
  case (Cons t ts)
  from Cons.prems(3) have sorted_ts: "sorted (map (\<lambda>x. - y0 x) ts)"
    and below_t: "\<forall>u\<in>set ts. y0 u \<le> y0 t"
    by auto
  show ?case
  proof (cases ry)
    case None
    with Cons.prems(4) have f: "foldl row_step (rows, cur @ [t], Some (y0 t)) ts = (rows', cur', ry')"
      by simp
    from None Cons.prems(2) have "cur = []" by simp
    then show ?thesis
      by (intro Cons.IH [OF _ _ sorted_ts f]) (use Cons.prems(1) below_t in \<open>simp_all\<close>)
  next
    case (Some v)
    with Cons.prems(2) have cur: "cur \<noteq> []" "v = y0 (hd cur)"
      "\<forall>f\<in>set cur. 0 \<le> v - y0 f \<and> v - y0 f < 5" "y0 t \<le> v" "\<forall>u\<in>set ts. y0 u \<le> v"
      by auto
    show ?thesis
    proof (cases "\<bar>y0 t - v\<bar> < row_threshold")
      case True
      with Some Cons.prems(4) have f:
        "foldl row_step (rows, cur @ [t], Some v) ts = (rows', cur', ry')"
        by simp
      from True cur(4) have "0 \<le> v - y0 t \<and> v - y0 t < 5"
        by (simp add: row_threshold_def)
      then show ?thesis
        by (intro Cons.IH [OF _ _ sorted_ts f]) (use Cons.prems(1) cur in \<open>auto\<close>)
    next
      case False
      with Some cur(1) Cons.prems(4) have f:
        "foldl row_step (rows @ [cur], [t], Some (y0 t)) ts = (rows', cur', ry')"
        by simp
      show ?thesis
        by (intro Cons.IH [OF _ _ sorted_ts f]) (use Cons.prems(1) cur below_t in \<open>auto\<close>)
    qed
  qed
qed

text \<open>
  Claim C10. The basic mode sorts the text elements by \<^verbatim>\<open>y0\<close> descending before it
  groups them, so in every row the first member has the largest \<^verbatim>\<open>y0\<close>, and every
  member \<open>f\<close> lies at most below it: \<open>0 \<le> y0 (hd row) - y0 f < 5\<close>.
\<close>

theorem basic_rows_one_sided:
  assumes "row \<in> set (rows_basic text_elements)" and "f \<in> set row"
  shows "y0 f \<le> y0 (hd row) \<and> y0 (hd row) - y0 f < 5"
proof -
  let ?ts = "sort_key (\<lambda>x. - y0 x) text_elements"
  obtain rows cur ry where fold: "foldl row_step ([], [], None) ?ts = (rows, cur, ry)"
    by (metis prod_cases3)
  have srt: "sorted (map (\<lambda>x. - y0 x) ?ts)" by simp
  have inv: "(\<forall>r\<in>set rows. \<forall>f\<in>set r. 0 \<le> y0 (hd r) - y0 f \<and> y0 (hd r) - y0 f < 5)
       \<and> (\<forall>f\<in>set cur. 0 \<le> y0 (hd cur) - y0 f \<and> y0 (hd cur) - y0 f < 5)"
    by (rule row_step_one_sided [OF _ _ srt fold]) simp_all
  from assms(1) fold have "row \<in> set rows \<or> row = cur"
    by (auto simp: rows_basic_def group_rows_def split: if_splits)
  with inv assms(2) show ?thesis by fastforce
qed

theorem basic_rows_one_sided_witness:
  "[\<lparr>text' = ''a'', x0 = 10, y0 = 103, x1 = 20, y1 = 110\<rparr>,
    \<lparr>text' = ''b'', x0 = 60, y0 = 100, x1 = 70, y1 = 113\<rparr>]
     \<in> set (rows_basic
         [\<lparr>text' = ''b'', x0 = 60, y0 = 100, x1 = 70, y1 = 113\<rparr>,
          \<lparr>text' = ''c'', x0 = 10, y0 = 90, x1 = 20, y1 = 99\<rparr>,
          \<lparr>text' = ''a'', x0 = 10, y0 = 103, x1 = 20, y1 = 110\<rparr>])
   \<and> y0 \<lparr>text' = ''b'', x0 = 60, y0 = 100, x1 = 70, y1 = 113\<rparr>
       \<le> y0 (hd [\<lparr>text' = ''a'', x0 = 10, y0 = 103, x1 = 20, y1 = 110\<rparr>,
                 \<lparr>text' = ''b'', x0 = 60, y0 = 100, x1 = 70, y1 = 113\<rparr>])
   \<and> y0 (hd [\<lparr>text' = ''a'', x0 = 10, y0 = 103, x1 = 20, y1 = 110\<rparr>,
              \<lparr>text' = ''b'', x0 = 60, y0 = 100, x1 = 70, y1 = 113\<rparr>])
       - y0 \<lparr>text' = ''b'', x0 = 60, y0 = 100, x1 = 70, y1 = 113\<rparr> < 5"
proof -
  have mem: "[\<lparr>text' = ''a'', x0 = 10, y0 = 103, x1 = 20, y1 = 110\<rparr>,
    \<lparr>text' = ''b'', x0 = 60, y0 = 100, x1 = 70, y1 = 113\<rparr>]
     \<in> set (rows_basic
         [\<lparr>text' = ''b'', x0 = 60, y0 = 100, x1 = 70, y1 = 113\<rparr>,
          \<lparr>text' = ''c'', x0 = 10, y0 = 90, x1 = 20, y1 = 99\<rparr>,
          \<lparr>text' = ''a'', x0 = 10, y0 = 103, x1 = 20, y1 = 110\<rparr>])"
    by (simp add: rows_basic_def group_rows_def row_threshold_def)
  show ?thesis
    using mem basic_rows_one_sided [OF mem,
        of "\<lparr>text' = ''b'', x0 = 60, y0 = 100, x1 = 70, y1 = 113\<rparr>"]
    by simp
qed

subsection \<open>Row clusterer, column-exact mode\<close>

lemma row_step_enhanced_cur: "snd (row_step_enhanced s t) \<noteq> []"
  by (cases s) (simp add: Let_def)

lemma foldl_row_step_enhanced_cur:
  "ts \<noteq> [] \<Longrightarrow> snd (foldl row_step_enhanced s ts) \<noteq> []"
  by (induction ts rule: rev_induct) (simp_all add: row_step_enhanced_cur)

lemma group_rows_enhanced_snoc:
  "group_rows_enhanced (ts @ [t]) =
     (let rows = group_rows_enhanced ts
      in if rows = [] then [[t]]
         else if \<bar>y0 t - y0 (last (last rows))\<bar> < 8 then butlast rows @ [last rows @ [t]]
         else rows @ [[t]])"
proof (cases "ts = []")
  case True
  then show ?thesis by (simp add: group_rows_enhanced_def)
next
  case False
  obtain rows cur where st: "foldl row_step_enhanced ([], []) ts = (rows, cur)"
    by (cases "foldl row_step_enhanced ([], []) ts")
  with foldl_row_step_enhanced_cur [OF False, of "([], [])"] have "cur \<noteq> []"
    by simp
  with st show ?thesis
    by (simp add: group_rows_enhanced_def Let_def)
qed

lemma concat_extend_last:
  "rs \<noteq> [] \<Longrightarrow> concat (butlast rs @ [last rs @ [t]]) = concat rs @ [t]"
  by (cases rs rule: rev_cases) simp_all

lemma concat_group_rows_enhanced: "concat (group_rows_enhanced ts) = ts"
proof (induction ts rule: rev_induct)
  case Nil
  show ?case by (simp add: group_rows_enhanced_def)
next
  case (snoc t ts)
  let ?rows = "group_rows_enhanced ts"
  show ?case
  proof (cases "?rows = []")
    case True
    with snoc have "ts = []" by simp
    moreover have "group_rows_enhanced (ts @ [t]) = [[t]]"
      using True by (simp add: group_rows_enhanced_snoc Let_def)
    ultimately show ?thesis by simp
  next
    case False
    show ?thesis
    proof (cases "\<bar>y0 t - y0 (last (last ?rows))\<bar> < 8")
      case True
      with False have "group_rows_enhanced (ts @ [t]) = butlast ?rows @ [last ?rows @ [t]]"
        by (simp add: group_rows_enhanced_snoc Let_def)
      then show ?thesis
        using concat_extend_last [OF False, of t] snoc by simp
    next
      case near: False
      with False have "group_rows_enhanced (ts @ [t]) = ?rows @ [[t]]"
        by (simp add: group_rows_enhanced_snoc Let_def)
      with snoc show ?thesis by simp
    qed
  qed
qed

lemma spec_chained_rows_Cons:
  "\<exists>row rows. spec_chained_rows (p # ts) = (p # row) # rows"
  by (induction "p # ts" arbitrary: p ts rule: spec_chained_rows.induct)
     (auto split: list.splits)

lemma foldl_row_step_enhanced_spec:
  "(case foldl row_step_enhanced (rows, cur @ [p]) ts of
      (rows', cur') \<Rightarrow> if cur' \<noteq> [] then rows' @ [cur'] else rows') =
   rows @ (case spec_chained_rows (p # ts) of
             [] \<Rightarrow> [cur]
           | r # rs \<Rightarrow> (cur @ r) # rs)"
proof (induction ts arbitrary: rows cur p)
  case Nil
  show ?case by simp
next
  case (Cons t ts)
  obtain r rs where sp: "spec_chained_rows (t # ts) = (t # r) # rs"
    using spec_chained_rows_Cons by blast
  show ?case
  proof (cases "\<bar>y0 t - y0 p\<bar> < 8")
    case True
    then have "row_step_enhanced (rows, cur @ [p]) t = (rows, (cur @ [p]) @ [t])"
      by simp
    with True Cons.IH [of rows "cur @ [p]" t] sp show ?thesis by simp
  next
    case False
    then have "row_step_enhanced (rows, cur @ [p]) t = (rows @ [cur @ [p]], [] @ [t])"
      by simp
    with False Cons.IH [of "rows @ [cur @ [p]]" "[]" t] sp show ?thesis by simp
  qed
qed

lemma group_rows_enhanced_spec: "group_rows_enhanced ts = spec_chained_rows ts"
proof (cases ts)
  case Nil
  then show ?thesis by (simp add: group_rows_enhanced_def)
next
  case (Cons p ps)
  obtain r rs where sp: "spec_chained_rows (p # ps) = (p # r) # rs"
    using spec_chained_rows_Cons by blast
  have "foldl row_step_enhanced ([], []) (p # ps) = foldl row_step_enhanced ([], [] @ [p]) ps"
    by simp
  with foldl_row_step_enhanced_spec [of "[]" "[]" p ps] sp Cons show ?thesis
    by (simp add: group_rows_enhanced_def)
qed

lemma spec_chained_rows_within:
  "row \<in> set (spec_chained_rows ts) \<Longrightarrow> Suc i < length row \<Longrightarrow>
   \<bar>y0 (row ! Suc i) - y0 (row ! i)\<bar> < 8"
proof (induction ts arbitrary: row i rule: spec_chained_rows.induct)
  case 1
  then show ?case by simp
next
  case (2 p)
  then show ?case by simp
next
  case (3 p t ts)
  obtain r rs where sp: "spec_chained_rows (t # ts) = (t # r) # rs"
    using spec_chained_rows_Cons by blast
  show ?case
  proof (cases "\<bar>y0 t - y0 p\<bar> < 8")
    case True
    with "3.prems"(1) sp have "row = p # t # r \<or> row \<in> set rs" by simp
    then show ?thesis
    proof
      assume row: "row = p # t # r"
      show ?thesis
      proof (cases i)
        case 0
        with row True show ?thesis by simp
      next
        case (Suc j)
        with row "3.prems"(2) have "Suc j < length (t # r)" by simp
        with "3.IH"(1) [OF True, of "t # r" j] sp row Suc show ?thesis by simp
      qed
    next
      assume "row \<in> set rs"
      with "3.IH"(1) [OF True, of row i] sp "3.prems"(2) show ?thesis by simp
    qed
  next
    case False
    with "3.prems"(1) have "row = [p] \<or> row \<in> set (spec_chained_rows (t # ts))" by simp
    with "3.IH"(2) [OF False, of row i] "3.prems"(2) show ?thesis by auto
  qed
qed

lemma spec_chained_rows_between:
  "Suc k < length (spec_chained_rows ts) \<Longrightarrow>
   \<not> \<bar>y0 (hd (spec_chained_rows ts ! Suc k)) - y0 (last (spec_chained_rows ts ! k))\<bar> < 8"
proof (induction ts arbitrary: k rule: spec_chained_rows.induct)
  case 1
  then show ?case by simp
next
  case (2 p)
  then show ?case by simp
next
  case (3 p t ts)
  obtain r rs where sp: "spec_chained_rows (t # ts) = (t # r) # rs"
    using spec_chained_rows_Cons by blast
  show ?case
  proof (cases "\<bar>y0 t - y0 p\<bar> < 8")
    case True
    then have eq: "spec_chained_rows (p # t # ts) = (p # t # r) # rs"
      using sp by simp
    with "3.prems" have k: "Suc k < length ((t # r) # rs)" by simp
    from "3.IH"(1) [OF True, of k] k sp
    have "\<not> \<bar>y0 (hd (((t # r) # rs) ! Suc k)) - y0 (last (((t # r) # rs) ! k))\<bar> < 8"
      by simp
    then show ?thesis unfolding eq by (cases k) simp_all
  next
    case False
    then have eq: "spec_chained_rows (p # t # ts) = [p] # (t # r) # rs"
      using sp by simp
    show ?thesis
    proof (cases k)
      case 0
      with False show ?thesis unfolding eq by simp
    next
      case (Suc j)
      with "3.prems" eq have "Suc j < length (spec_chained_rows (t # ts))" using sp by simp
      from "3.IH"(2) [OF False this] sp Suc show ?thesis unfolding eq by simp
    qed
  qed
qed

lemma spec_chained_rows_nonempty: "[] \<notin> set (spec_chained_rows ts)"
  by (induction ts rule: spec_chained_rows.induct) (auto split: list.splits)


text \<open>
  Claim C4. The column-exact mode compares the \<^verbatim>\<open>y0\<close> of a text element with the
  \<^verbatim>\<open>y0\<close> of the last member of the current row, with the threshold 8, and not with
  the first member of the row. For the grouping loop: the rows of \<open>ts @ [t]\<close> are the rows
  of \<open>ts\<close> with \<open>t\<close> appended to the last row when it lies within 8 of that row's last
  member, and with the new row \<open>[t]\<close> otherwise. For the clusterer of a page, with its
  sort: the rows are the pairwise-consecutive chaining of the specification applied to
  the text elements in descending \<^verbatim>\<open>y0\<close> order; they are not empty and their
  concatenation is that sorted sequence; inside a row every member lies within 8 of the
  member before it; and the first member of a row is at least 8 away from the last
  member of the row before it. Text elements at \<^verbatim>\<open>y0\<close> 0, 4, 8 and 12 therefore
  form one row, whose first and last member are 12 apart, where the basic mode splits
  them into two rows.
\<close>

theorem enhanced_rows_chained:
  "group_rows_enhanced [] = []
   \<and> group_rows_enhanced (ts @ [t]) =
     (let rows = group_rows_enhanced ts
      in if rows = [] then [[t]]
         else if \<bar>y0 t - y0 (last (last rows))\<bar> < 8 then butlast rows @ [last rows @ [t]]
         else rows @ [[t]])
   \<and> rows_enhanced text_elements = spec_chained_rows (sort_key (\<lambda>x. - y0 x) text_elements)
   \<and> concat (rows_enhanced text_elements) = sort_key (\<lambda>x. - y0 x) text_elements
   \<and> [] \<notin> set (rows_enhanced text_elements)
   \<and> (\<forall>row\<in>set (rows_enhanced text_elements). \<forall>i. Suc i < length row \<longrightarrow>
         \<bar>y0 (row ! Suc i) - y0 (row ! i)\<bar> < 8)
   \<and> (\<forall>k. Suc k < length (rows_enhanced text_elements) \<longrightarrow>
         \<not> \<bar>y0 (hd (rows_enhanced text_elements ! Suc k))
             - y0 (last (rows_enhanced text_elements ! k))\<bar> < 8)
   \<and> rows_enhanced
       [\<lparr>text' = ''a'', x0 = 0, y0 = 0, x1 = 9, y1 = 3\<rparr>,
        \<lparr>text' = ''b'', x0 = 10, y0 = 4, x1 = 19, y1 = 7\<rparr>,
        \<lparr>text' = ''c'', x0 = 20, y0 = 8, x1 = 29, y1 = 11\<rparr>,
        \<lparr>text' = ''d'', x0 = 30, y0 = 12, x1 = 39, y1 = 15\<rparr>]
     = [[\<lparr>text' = ''d'', x0 = 30, y0 = 12, x1 = 39, y1 = 15\<rparr>,
         \<lparr>text' = ''c'', x0 = 20, y0 = 8, x1 = 29, y1 = 11\<rparr>,
         \<lparr>text' = ''b'', x0 = 10, y0 = 4, x1 = 19, y1 = 7\<rparr>,
         \<lparr>text' = ''a'', x0 = 0, y0 = 0, x1 = 9, y1 = 3\<rparr>]]
   \<and> rows_basic
       [\<lparr>text' = ''a'', x0 = 0, y0 = 0, x1 = 9, y1 = 3\<rparr>,
        \<lparr>text' = ''b'', x0 = 10, y0 = 4, x1 = 19, y1 = 7\<rparr>,
        \<lparr>text' = ''c'', x0 = 20, y0 = 8, x1 = 29, y1 = 11\<rparr>,
        \<lparr>text' = ''d'', x0 = 30, y0 = 12, x1 = 39, y1 = 15\<rparr>]
     = [[\<lparr>text' = ''d'', x0 = 30, y0 = 12, x1 = 39, y1 = 15\<rparr>,
         \<lparr>text' = ''c'', x0 = 20, y0 = 8, x1 = 29, y1 = 11\<rparr>],
        [\<lparr>text' = ''b'', x0 = 10, y0 = 4, x1 = 19, y1 = 7\<rparr>,
         \<lparr>text' = ''a'', x0 = 0, y0 = 0, x1 = 9, y1 = 3\<rparr>]]"
proof (intro conjI)
  show "group_rows_enhanced [] = []"
    by (simp add: group_rows_enhanced_def)
  show "group_rows_enhanced (ts @ [t]) =
     (let rows = group_rows_enhanced ts
      in if rows = [] then [[t]]
         else if \<bar>y0 t - y0 (last (last rows))\<bar> < 8 then butlast rows @ [last rows @ [t]]
         else rows @ [[t]])"
    by (rule group_rows_enhanced_snoc)
  show spec: "rows_enhanced text_elements =
      spec_chained_rows (sort_key (\<lambda>x. - y0 x) text_elements)"
    by (simp add: rows_enhanced_def group_rows_enhanced_spec)
  show "concat (rows_enhanced text_elements) = sort_key (\<lambda>x. - y0 x) text_elements"
    by (simp add: rows_enhanced_def concat_group_rows_enhanced)
  show "[] \<notin> set (rows_enhanced text_elements)"
    unfolding spec by (rule spec_chained_rows_nonempty)
  show "\<forall>row\<in>set (rows_enhanced text_elements). \<forall>i. Suc i < length row \<longrightarrow>
         \<bar>y0 (row ! Suc i) - y0 (row ! i)\<bar> < 8"
    unfolding spec using spec_chained_rows_within by blast
  show "\<forall>k. Suc k < length (rows_enhanced text_elements) \<longrightarrow>
         \<not> \<bar>y0 (hd (rows_enhanced text_elements ! Suc k))
             - y0 (last (rows_enhanced text_elements ! k))\<bar> < 8"
    unfolding spec using spec_chained_rows_between by blast
qed (simp_all add: rows_enhanced_def group_rows_enhanced_def rows_basic_def group_rows_def
      row_threshold_def Let_def)

theorem enhanced_rows_chained_witness:
  "rows_enhanced
       [\<lparr>text' = ''a'', x0 = 0, y0 = 0, x1 = 9, y1 = 3\<rparr>,
        \<lparr>text' = ''b'', x0 = 10, y0 = 4, x1 = 19, y1 = 7\<rparr>,
        \<lparr>text' = ''e'', x0 = 20, y0 = 30, x1 = 29, y1 = 33\<rparr>]
     = [[\<lparr>text' = ''e'', x0 = 20, y0 = 30, x1 = 29, y1 = 33\<rparr>],
        [\<lparr>text' = ''b'', x0 = 10, y0 = 4, x1 = 19, y1 = 7\<rparr>,
         \<lparr>text' = ''a'', x0 = 0, y0 = 0, x1 = 9, y1 = 3\<rparr>]]
   \<and> \<bar>y0 \<lparr>text' = ''a'', x0 = 0, y0 = 0, x1 = 9, y1 = 3\<rparr>
       - y0 \<lparr>text' = ''b'', x0 = 10, y0 = 4, x1 = 19, y1 = 7\<rparr>\<bar> < 8
   \<and> \<not> \<bar>y0 \<lparr>text' = ''b'', x0 = 10, y0 = 4, x1 = 19, y1 = 7\<rparr>
         - y0 \<lparr>text' = ''e'', x0 = 20, y0 = 30, x1 = 29, y1 = 33\<rparr>\<bar> < 8"
proof -
  let ?tes = "[\<lparr>text' = ''a'', x0 = 0, y0 = 0, x1 = 9, y1 = 3\<rparr>,
        \<lparr>text' = ''b'', x0 = 10, y0 = 4, x1 = 19, y1 = 7\<rparr>,
        \<lparr>text' = ''e'', x0 = 20, y0 = 30, x1 = 29, y1 = 33\<rparr>]"
  have rows: "rows_enhanced ?tes
     = [[\<lparr>text' = ''e'', x0 = 20, y0 = 30, x1 = 29, y1 = 33\<rparr>],
        [\<lparr>text' = ''b'', x0 = 10, y0 = 4, x1 = 19, y1 = 7\<rparr>,
         \<lparr>text' = ''a'', x0 = 0, y0 = 0, x1 = 9, y1 = 3\<rparr>]]"
    using enhanced_rows_chained [where text_elements = ?tes]
    by simp
  from enhanced_rows_chained [where text_elements = ?tes]
  have within: "\<forall>row\<in>set (rows_enhanced ?tes). \<forall>i. Suc i < length row \<longrightarrow>
         \<bar>y0 (row ! Suc i) - y0 (row ! i)\<bar> < 8"
    and between: "\<forall>k. Suc k < length (rows_enhanced ?tes) \<longrightarrow>
         \<not> \<bar>y0 (hd (rows_enhanced ?tes ! Suc k)) - y0 (last (rows_enhanced ?tes ! k))\<bar> < 8"
    by blast+
  from within [unfolded rows, rule_format, of "[\<lparr>text' = ''b'', x0 = 10, y0 = 4, x1 = 19, y1 = 7\<rparr>,
         \<lparr>text' = ''a'', x0 = 0, y0 = 0, x1 = 9, y1 = 3\<rparr>]" 0]
    between [unfolded rows, rule_format, of 0] rows
  show ?thesis by simp
qed

subsection \<open>Pages without text\<close>

text \<open>
  Claim C9. A page on which no text container has text left after \<^verbatim>\<open>strip()\<close> adds
  no row and no output line, in both modes, and the pages before and after it are
  processed as if it were not there. The extractors are total functions: the branch
  taken for such a page is the \<^verbatim>\<open>continue\<close>, which raises nothing.
\<close>

theorem empty_page_skipped:
  assumes "collect_text_elements page = []"
  shows "extract_pdf_tables (before @ page # after) = extract_pdf_tables (before @ after)
       \<and> extract_pdf_tables_service (before @ page # after)
           = extract_pdf_tables_service (before @ after)
       \<and> extract_pdf_tables_enhanced (before @ page # after)
           = extract_pdf_tables_enhanced (before @ after)
       \<and> pages_loop_basic all_tables_data [page] = all_tables_data
       \<and> pages_loop_enhanced all_tables_data [page] = all_tables_data
       \<and> extract_pdf_tables [page] = []
       \<and> extract_pdf_tables_service [page] = []
       \<and> extract_pdf_tables_enhanced [page] = []"
  using assms
  by (simp add: extract_pdf_tables_def extract_pdf_tables_service_def
      extract_pdf_tables_enhanced_def pages_loop_basic_eq pages_loop_enhanced_eq
      result_strings_loop_eq processed_rows_enhanced_Nil page_tables_basic_def
      rows_basic_def group_rows_def)

theorem empty_page_skipped_witness:
  "collect_text_elements [LTRect 0 0 10 10, LTTextContainer ''  '' 1 2 3 4] = []
   \<and> extract_pdf_tables
       [[LTTextContainer ''a'' 10 100 20 110],
        [LTRect 0 0 10 10, LTTextContainer ''  '' 1 2 3 4],
        [LTTextContainer ''b'' 10 100 20 110]]
     = [tab, CHR '' '', CHR ''a'', CHR '' '', tab, newline,
        tab, CHR '' '', CHR ''b'', CHR '' '', tab]"
proof -
  have h: "collect_text_elements [LTRect 0 0 10 10, LTTextContainer ''  '' 1 2 3 4] = []"
    by (simp add: strip_def isspace_def)
  have "extract_pdf_tables ([[LTTextContainer ''a'' 10 100 20 110]] @ [[LTTextContainer ''b'' 10 100 20 110]])
     = [tab, CHR '' '', CHR ''a'', CHR '' '', tab, newline,
        tab, CHR '' '', CHR ''b'', CHR '' '', tab]"
    by (simp add: extract_pdf_tables_def strip_def isspace_def page_tables_basic_def
      rows_basic_def group_rows_def row_str_def Let_def)
  with h empty_page_skipped [OF h, of "[[LTTextContainer ''a'' 10 100 20 110]]"
      "[[LTTextContainer ''b'' 10 100 20 110]]"]
  show ?thesis by simp
qed

subsection \<open>Column boundary resolver\<close>

lemma first_index_Some_iff:
  "first_index P xs = Some i \<longleftrightarrow> i < length xs \<and> P (xs ! i) \<and> (\<forall>j<i. \<not> P (xs ! j))"
proof (induction xs arbitrary: i)
  case Nil
  show ?case by simp
next
  case (Cons x xs)
  show ?case
  proof (cases "P x")
    case True
    then show ?thesis by (cases i) auto
  next
    case False
    show ?thesis
    proof (cases i)
      case 0
      with False show ?thesis by auto
    next
      case (Suc k)
      with False Cons.IH [of k] show ?thesis
        by (auto simp: less_Suc_eq_0_disj)
    qed
  qed
qed

lemma first_index_None_iff: "first_index P xs = None \<longleftrightarrow> (\<forall>x\<in>set xs. \<not> P x)"
  by (induction xs) auto

lemma extend_found_first_index:
  "extend_found cols t =
     map_option (\<lambda>i. cols[i := (min (fst (cols ! i)) (x0 t), max (snd (cols ! i)) (x1 t))])
       (first_index (\<lambda>iv. takes_x0 iv t) cols)"
  by (induction cols) (auto simp: takes_x0_def option.map_comp o_def)

lemma boundary_step_spec: "boundary_step cbs t = spec_discovery_step cbs t"
  by (cases cbs)
     (simp_all add: boundary_step_def spec_discovery_step_def extend_found_first_index
       split: option.splits)

lemma foldl_rows_concat:
  "foldl (\<lambda>acc row. foldl f acc row) acc rows = foldl f acc (concat rows)"
  by (induction rows arbitrary: acc) simp_all

lemma column_boundaries_spec: "column_boundaries rows = spec_interval_discovery rows"
proof -
  have "boundary_step = spec_discovery_step"
    by (intro ext) (rule boundary_step_spec)
  then show ?thesis
    by (simp add: column_boundaries_def spec_interval_discovery_def foldl_rows_concat)
qed

lemma foldl_merge_step_spec:
  "foldl merge_step (acc @ [p]) ivs = acc @ spec_merge_sorted (p # ivs)"
proof (induction ivs arbitrary: acc p)
  case Nil
  show ?case by simp
next
  case (Cons c ivs)
  show ?case
  proof (cases "fst c \<le> snd p + 10")
    case True
    then have "merge_step (acc @ [p]) c = acc @ [(fst p, max (snd p) (snd c))]"
      by (simp add: merge_step_def)
    with True Cons.IH [of acc] show ?thesis by simp
  next
    case False
    then have "merge_step (acc @ [p]) c = (acc @ [p]) @ [c]"
      by (simp add: merge_step_def)
    with False Cons.IH [of "acc @ [p]" c] show ?thesis by simp
  qed
qed

lemma merged_columns_spec: "merged_columns cbs = spec_interval_merge cbs"
proof (cases "sort_key fst cbs")
  case Nil
  then show ?thesis by (simp add: merged_columns_def spec_interval_merge_def)
next
  case (Cons p ivs)
  have "foldl merge_step [] (p # ivs) = foldl merge_step ([] @ [p]) ivs"
    by (simp add: merge_step_def)
  also have "\<dots> = spec_merge_sorted (p # ivs)"
    using foldl_merge_step_spec [of "[]" p ivs] by simp
  finally show ?thesis using Cons by (simp add: merged_columns_def spec_interval_merge_def)
qed

text \<open>
  Claim C6. The column boundary resolver is the two-phase algorithm of the specification.
  Discovery walks the text elements row by row and, for each, extends the first interval
  whose range widened by 5 contains its \<^verbatim>\<open>x0\<close>, or appends the interval
  \<open>(x0, x1)\<close> when there is none. The merge sorts by the left end and merges an interval
  into the previous one exactly when its left end is at most the previous right end plus
  10, the right end becoming the maximum; the intervals \<open>(0, 20)\<close> and \<open>(28, 40)\<close>
  merge into \<open>(0, 40)\<close>.
\<close>

theorem column_resolver_two_phases:
  "column_boundaries rows = spec_interval_discovery rows
   \<and> merged_columns cbs = spec_interval_merge cbs
   \<and> merged_columns [(0, 20), (28, 40)] = [(0, 40)]"
  by (simp add: column_boundaries_spec merged_columns_spec spec_interval_merge_def)

lemma spec_merge_sorted_hd:
  "\<exists>m rest. spec_merge_sorted (p # ivs) = (fst p, m) # rest"
  by (induction "p # ivs" arbitrary: p ivs rule: spec_merge_sorted.induct) auto

lemma spec_merge_sorted_fst_subset:
  "fst ` set (spec_merge_sorted ivs) \<subseteq> fst ` set ivs"
  by (induction ivs rule: spec_merge_sorted.induct) auto

lemma spec_merge_sorted_sorted:
  "sorted (map fst ivs) \<Longrightarrow> sorted (map fst (spec_merge_sorted ivs))"
proof (induction ivs rule: spec_merge_sorted.induct)
  case (3 p c ivs)
  show ?case
  proof (cases "fst c \<le> snd p + 10")
    case True
    with "3.prems" "3.IH"(1) show ?thesis by auto
  next
    case False
    have "fst ` set (spec_merge_sorted (c # ivs)) \<subseteq> fst ` set (c # ivs)"
      by (rule spec_merge_sorted_fst_subset)
    moreover from "3.prems" have "\<forall>a\<in>fst ` set (c # ivs). fst p \<le> a"
      by auto
    ultimately have "\<forall>a\<in>fst ` set (spec_merge_sorted (c # ivs)). fst p \<le> a"
      by blast
    moreover from False "3.prems" "3.IH"(2)
    have "sorted (map fst (spec_merge_sorted (c # ivs)))"
      by simp
    ultimately show ?thesis using False by simp
  qed
qed simp_all

lemma spec_merge_sorted_gapped: "gapped (spec_merge_sorted ivs)"
proof (induction ivs rule: spec_merge_sorted.induct)
  case (3 p c ivs)
  show ?case
  proof (cases "fst c \<le> snd p + 10")
    case True
    with "3.IH"(1) show ?thesis by simp
  next
    case False
    obtain m rest where "spec_merge_sorted (c # ivs) = (fst c, m) # rest"
      using spec_merge_sorted_hd by blast
    with False "3.IH"(2) show ?thesis by simp
  qed
qed simp_all

lemma spec_merge_sorted_id: "gapped ivs \<Longrightarrow> spec_merge_sorted ivs = ivs"
  by (induction ivs rule: spec_merge_sorted.induct) simp_all

text \<open>
  Claim C7. The merge phase (the sort by the left end and the merge loop) is idempotent:
  run on its own result, it returns that result unchanged.
\<close>

theorem merge_idempotent:
  "merged_columns (merged_columns cbs) = merged_columns cbs"
proof -
  let ?m = "spec_merge_sorted (sort_key fst cbs)"
  have "sorted (map fst ?m)"
    by (rule spec_merge_sorted_sorted) simp
  then have "sort_key fst ?m = ?m"
    by (rule sort_key_id_if_sorted)
  moreover have "spec_merge_sorted ?m = ?m"
    by (rule spec_merge_sorted_id) (rule spec_merge_sorted_gapped)
  ultimately show ?thesis
    by (simp add: merged_columns_spec spec_interval_merge_def)
qed

subsection \<open>String primitives\<close>

lemma strip_Nil: "strip [] = []"
  by (simp add: strip_def)

lemma strip_id:
  assumes "s \<noteq> []" and "\<not> isspace (hd s)" and "\<not> isspace (last s)"
  shows "strip s = s"
proof -
  from assms have "dropWhile isspace s = s"
    by (simp add: dropWhile_eq_self_iff)
  moreover from assms have "dropWhile isspace (rev s) = rev s"
    by (simp add: dropWhile_eq_self_iff hd_rev)
  ultimately show ?thesis by (simp add: strip_def)
qed

lemma last_dropWhile: "dropWhile P xs \<noteq> [] \<Longrightarrow> last (dropWhile P xs) = last xs"
  by (induction xs) (auto split: if_splits)

lemma strip_ends:
  assumes "strip s \<noteq> []"
  shows "\<not> isspace (hd (strip s)) \<and> \<not> isspace (last (strip s))"
proof -
  let ?a = "dropWhile isspace s"
  let ?b = "dropWhile isspace (rev ?a)"
  from assms have b: "?b \<noteq> []" by (simp add: strip_def)
  have a: "?a \<noteq> []"
  proof
    assume "?a = []"
    then have "?b = []" by (simp only: rev.simps dropWhile.simps)
    with b show False by simp
  qed
  have "last (strip s) = hd ?b" by (simp add: strip_def last_rev)
  moreover have "\<not> isspace (hd ?b)" using b by (rule hd_dropWhile)
  moreover have "hd (strip s) = last ?b" by (simp add: strip_def hd_rev)
  moreover have "last ?b = last (rev ?a)" using b by (rule last_dropWhile)
  moreover have "last (rev ?a) = hd ?a" by (simp add: last_rev)
  moreover have "\<not> isspace (hd ?a)" using a by (rule hd_dropWhile)
  ultimately show ?thesis by simp
qed

lemma strip_fixed_ends:
  "strip s = s \<Longrightarrow> s \<noteq> [] \<Longrightarrow> \<not> isspace (hd s) \<and> \<not> isspace (last s)"
  using strip_ends [of s] by simp

lemma join_snoc: "join sep (xs @ [x]) = (if xs = [] then x else join sep xs @ sep @ x)"
  by (induction sep xs rule: join.induct) simp_all

lemma join_eq_Nil: "\<forall>x\<in>set xs. x \<noteq> [] \<Longrightarrow> join sep xs = [] \<longleftrightarrow> xs = []"
  by (induction sep xs rule: join.induct) simp_all

lemma hd_join: "x \<noteq> [] \<Longrightarrow> hd (join sep (x # xs)) = hd x"
  by (cases xs) simp_all

lemma join_last_nonempty: "xs \<noteq> [] \<Longrightarrow> last xs \<noteq> [] \<Longrightarrow> join sep xs \<noteq> []"
  by (induction sep xs rule: join.induct) simp_all

lemma last_join: "xs \<noteq> [] \<Longrightarrow> last xs \<noteq> [] \<Longrightarrow> last (join sep xs) = last (last xs)"
proof (induction sep xs rule: join.induct)
  case (3 sep x y ys)
  then have "join sep (y # ys) \<noteq> []"
    by (intro join_last_nonempty) simp_all
  with 3 show ?case by simp
qed simp_all

lemma strip_join:
  assumes "\<forall>x\<in>set xs. x \<noteq> [] \<and> strip x = x"
  shows "strip (join sep xs) = join sep xs"
proof (cases xs)
  case Nil
  then show ?thesis by (simp add: strip_Nil)
next
  case (Cons x ys)
  with assms have x: "x \<noteq> []" "strip x = x" by simp_all
  from Cons assms have l: "last xs \<noteq> []" "strip (last xs) = last xs"
    using last_in_set [of xs] by auto
  have ne: "join sep xs \<noteq> []" using assms Cons by (simp add: join_eq_Nil)
  have "hd (join sep xs) = hd x" using Cons x by (simp add: hd_join)
  moreover have "last (join sep xs) = last (last xs)" using Cons l by (simp add: last_join)
  ultimately show ?thesis
    using ne strip_fixed_ends [OF x(2) x(1)] strip_fixed_ends [OF l(2) l(1)]
    by (intro strip_id) simp_all
qed

subsection \<open>Row assembler, column-exact mode\<close>

lemma place_text_first_index:
  "place_text cols k row_data t =
     (case first_index (\<lambda>iv. holds_text iv t) cols of
        None \<Rightarrow> row_data
      | Some j \<Rightarrow>
          if row_data ! (k + j) \<noteq> []
          then row_data[k + j := row_data ! (k + j) @ CHR '' '' # text' t]
          else row_data[k + j := text' t])"
  by (induction cols arbitrary: k) (auto simp: holds_text_def split: option.splits)


lemma spec_slot_snoc:
  "spec_slot ivs (ps @ [t]) i =
     (if first_index (\<lambda>iv. holds_text iv t) ivs = Some i
      then (if spec_slot ivs ps i = [] \<and> (\<forall>u\<in>set ps. text' u \<noteq> []) then text' t
            else if filter (\<lambda>t. first_index (\<lambda>iv. holds_text iv t) ivs = Some i) ps = []
                 then text' t
                 else spec_slot ivs ps i @ CHR '' '' # text' t)
      else spec_slot ivs ps i)"
proof -
  let ?sel = "filter (\<lambda>t. first_index (\<lambda>iv. holds_text iv t) ivs = Some i) ps"
  have "\<forall>u\<in>set ps. text' u \<noteq> [] \<Longrightarrow> spec_slot ivs ps i = [] \<Longrightarrow> ?sel = []"
  proof -
    assume a: "\<forall>u\<in>set ps. text' u \<noteq> []" and b: "spec_slot ivs ps i = []"
    from a have "\<forall>x\<in>set (map text' ?sel). x \<noteq> []" by auto
    from join_eq_Nil [OF this, of "[CHR '' '']"] b show "?sel = []"
      by (simp add: spec_slot_def)
  qed
  then show ?thesis
    by (auto simp: spec_slot_def join_snoc)
qed

lemma place_text_slots:
  assumes "\<forall>u\<in>set ps. text' u \<noteq> []"
  shows "place_text ivs 0 (map (spec_slot ivs ps) [0..<length ivs]) t =
         map (spec_slot ivs (ps @ [t])) [0..<length ivs]"
proof (cases "first_index (\<lambda>iv. holds_text iv t) ivs")
  case None
  then show ?thesis
    by (simp add: place_text_first_index spec_slot_snoc)
next
  case (Some j)
  then have j: "j < length ivs"
    by (simp add: first_index_Some_iff)
  let ?sel = "filter (\<lambda>t. first_index (\<lambda>iv. holds_text iv t) ivs = Some j) ps"
  from assms have "\<forall>x\<in>set (map text' ?sel). x \<noteq> []" by auto
  from join_eq_Nil [OF this, of "[CHR '' '']"]
  have empty: "spec_slot ivs ps j = [] \<longleftrightarrow> ?sel = []"
    by (simp add: spec_slot_def)
  show ?thesis
  proof (rule nth_equalityI)
    show "length (place_text ivs 0 (map (spec_slot ivs ps) [0..<length ivs]) t) =
          length (map (spec_slot ivs (ps @ [t])) [0..<length ivs])"
      using Some by (simp add: place_text_first_index)
  next
    fix i
    assume "i < length (place_text ivs 0 (map (spec_slot ivs ps) [0..<length ivs]) t)"
    with Some have i: "i < length ivs"
      by (simp add: place_text_first_index split: if_splits)
    show "place_text ivs 0 (map (spec_slot ivs ps) [0..<length ivs]) t ! i =
          map (spec_slot ivs (ps @ [t])) [0..<length ivs] ! i"
    proof (cases "i = j")
      case True
      with Some j empty show ?thesis
        by (simp add: place_text_first_index spec_slot_snoc)
    next
      case False
      with Some i j show ?thesis
        by (simp add: place_text_first_index spec_slot_snoc)
    qed
  qed
qed

lemma foldl_place_text_slots:
  assumes "\<forall>u\<in>set ps. text' u \<noteq> []" and "\<forall>u\<in>set ts. text' u \<noteq> []"
  shows "foldl (place_text ivs 0) (map (spec_slot ivs ps) [0..<length ivs]) ts =
         map (spec_slot ivs (ps @ ts)) [0..<length ivs]"
  using assms
proof (induction ts arbitrary: ps)
  case Nil
  show ?case by simp
next
  case (Cons t ts)
  from Cons.prems have "\<forall>u\<in>set (ps @ [t]). text' u \<noteq> []" by simp
  from Cons.IH [OF this] Cons.prems show ?case
    by (simp add: place_text_slots)
qed

lemma spec_slot_Nil: "spec_slot ivs [] i = []"
  by (simp add: spec_slot_def)

lemma spec_slot_stripped:
  assumes "\<forall>u\<in>set ts. text' u \<noteq> [] \<and> strip (text' u) = text' u"
  shows "strip (spec_slot ivs ts i) = spec_slot ivs ts i"
  unfolding spec_slot_def using assms by (intro strip_join) auto

lemma row_data_enhanced_spec:
  assumes "\<forall>t\<in>set row. text' t \<noteq> [] \<and> strip (text' t) = text' t"
  shows "row_data_enhanced merged row = spec_row_cells merged row"
proof -
  let ?ts = "sort_key x0 row"
  from assms have ts: "\<forall>u\<in>set ?ts. text' u \<noteq> [] \<and> strip (text' u) = text' u"
    by simp
  have "replicate (length merged) [] = map (spec_slot merged []) [0..<length merged]"
    by (rule nth_equalityI) (simp_all add: spec_slot_Nil)
  then have "foldl (place_text merged 0) (replicate (length merged) []) ?ts =
        map (spec_slot merged ([] @ ?ts)) [0..<length merged]"
    using foldl_place_text_slots [of "[]" ?ts merged] ts by simp
  then have slots: "foldl (place_text merged 0) (replicate (length merged) []) ?ts =
        map (spec_slot merged ?ts) [0..<length merged]"
    by simp
  have "map strip (filter (\<lambda>cell. strip cell \<noteq> []) (map (spec_slot merged ?ts) is)) =
        filter (\<lambda>cell. cell \<noteq> []) (map (spec_slot merged ?ts) is)" for "is"
    by (induction "is") (simp_all add: spec_slot_stripped [OF ts])
  with slots show ?thesis
    by (simp add: row_data_enhanced_def spec_row_cells_def)
qed


lemma strip_idem: "strip (strip s) = strip s"
proof (cases "strip s = []")
  case True
  then show ?thesis by (simp add: strip_Nil)
next
  case False
  with strip_ends [OF False] show ?thesis by (intro strip_id) simp_all
qed

lemma collect_text_elements_stripped:
  "t \<in> set (collect_text_elements page) \<Longrightarrow> text' t \<noteq> [] \<and> strip (text' t) = text' t"
  by (induction page rule: collect_text_elements.induct)
     (auto simp: Let_def strip_idem split: if_splits)

lemma rows_enhanced_members:
  assumes "row \<in> set (rows_enhanced text_elements)" and "t \<in> set row"
  shows "t \<in> set text_elements"
proof -
  from assms have "t \<in> set (concat (rows_enhanced text_elements))" by auto
  then show ?thesis
    by (simp add: rows_enhanced_def concat_group_rows_enhanced)
qed

text \<open>
  Claim C5. For every row of a page in the column-exact mode and every list of column
  intervals, the assembler starts from one empty slot for each interval and produces the
  cells of the specification: the fragments are taken in ascending \<^verbatim>\<open>x0\<close> order, each
  goes to the first interval, from the left, with \<open>x0 \<ge> xmin - 5\<close> and
  \<open>x1 \<le> xmax + 5\<close>, the texts that share a slot are separated by one space, a
  fragment that no interval holds is in no slot, and the empty slots are removed, so there
  are at most as many cells as intervals.
\<close>

theorem enhanced_row_assembly:
  assumes "row \<in> set (rows_enhanced (collect_text_elements page))"
  shows "row_data_enhanced merged row = spec_row_cells merged row
       \<and> length (row_data_enhanced merged row) \<le> length merged"
proof -
  have "\<forall>t\<in>set row. text' t \<noteq> [] \<and> strip (text' t) = text' t"
    using assms rows_enhanced_members collect_text_elements_stripped by blast
  then have eq: "row_data_enhanced merged row = spec_row_cells merged row"
    by (rule row_data_enhanced_spec)
  have "length (spec_row_cells merged row) \<le> length (map (spec_slot merged (sort_key x0 row)) [0..<length merged])"
    unfolding spec_row_cells_def by (rule length_filter_le)
  with eq show ?thesis by simp
qed

theorem enhanced_row_assembly_witness:
  "[\<lparr>text' = ''a'', x0 = 0, y0 = 102, x1 = 10, y1 = 112\<rparr>,
    \<lparr>text' = ''z'', x0 = 100, y0 = 101, x1 = 120, y1 = 111\<rparr>,
    \<lparr>text' = ''b'', x0 = 12, y0 = 100, x1 = 20, y1 = 110\<rparr>]
     \<in> set (rows_enhanced (collect_text_elements
          [LTTextContainer ''b '' 12 100 20 110, LTTextContainer ''z'' 100 101 120 111,
           LTRect 0 0 200 200, LTTextContainer '' a'' 0 102 10 112]))
   \<and> row_data_enhanced [(0, 20), (50, 70)]
       [\<lparr>text' = ''a'', x0 = 0, y0 = 102, x1 = 10, y1 = 112\<rparr>,
        \<lparr>text' = ''z'', x0 = 100, y0 = 101, x1 = 120, y1 = 111\<rparr>,
        \<lparr>text' = ''b'', x0 = 12, y0 = 100, x1 = 20, y1 = 110\<rparr>] = [''a b'']"
proof -
  let ?row = "[\<lparr>text' = ''a'', x0 = 0, y0 = 102, x1 = 10, y1 = 112\<rparr>,
    \<lparr>text' = ''z'', x0 = 100, y0 = 101, x1 = 120, y1 = 111\<rparr>,
    \<lparr>text' = ''b'', x0 = 12, y0 = 100, x1 = 20, y1 = 110\<rparr>]"
  have mem: "?row \<in> set (rows_enhanced (collect_text_elements
          [LTTextContainer ''b '' 12 100 20 110, LTTextContainer ''z'' 100 101 120 111,
           LTRect 0 0 200 200, LTTextContainer '' a'' 0 102 10 112]))"
    by (simp add: rows_enhanced_def group_rows_enhanced_def strip_def isspace_def Let_def)
  have "spec_row_cells [(0, 20), (50, 70)] ?row = [''a b'']"
    by (simp add: spec_row_cells_def spec_slot_def holds_text_def upt_rec)
  with mem enhanced_row_assembly [OF mem, of "[(0, 20), (50, 70)]"] show ?thesis
    by simp
qed

subsection \<open>Splitting a row string at the tabs\<close>

lemma split_no_sep: "sep \<notin> set a \<Longrightarrow> split sep a = [a]"
  by (induction a) auto

lemma split_append_sep: "sep \<notin> set a \<Longrightarrow> split sep (a @ sep # rest) = a # split sep rest"
  by (induction a) auto

lemma concat_padded_cells:
  "concat (map (\<lambda>c. CHR '' '' # c @ [CHR '' '', tab]) (c # cs)) =
     CHR '' '' # c @ concat (map (\<lambda>d. [CHR '' '', tab, CHR '' ''] @ d) cs) @ [CHR '' '', tab]"
  by (induction cs arbitrary: c) simp_all

lemma row_str_cells:
  "cells \<noteq> [] \<Longrightarrow>
   row_str cells = tab # concat (map (\<lambda>c. CHR '' '' # c @ [CHR '' '', tab]) cells)"
  by (cases cells) (simp_all only: concat_padded_cells, simp_all add: row_str_def join_Cons)

lemma split_padded_cells:
  "\<forall>c\<in>set cells. tab \<notin> set c \<Longrightarrow>
   split tab (concat (map (\<lambda>c. CHR '' '' # c @ [CHR '' '', tab]) cells)) =
     map (\<lambda>c. CHR '' '' # c @ [CHR '' '']) cells @ [[]]"
proof (induction cells)
  case Nil
  show ?case by simp
next
  case (Cons c cells)
  then have "tab \<notin> set (CHR '' '' # c @ [CHR '' ''])"
    by (simp add: tab_def)
  from split_append_sep [OF this] Cons show ?case by simp
qed

text \<open>
  Claim C8, as amended. For a row with at least one cell and no tab inside a cell,
  splitting the row string at the tab character and discarding the empty first and last
  token gives as many tokens as there are cells, and the token of a cell is the cell
  between two spaces: removing the first and the last character of each token gives the
  cells back.
\<close>

theorem tab_split_padded:
  assumes "cells \<noteq> []" and "\<forall>c\<in>set cells. tab \<notin> set c"
  shows "row_tokens (row_str cells) = map (\<lambda>c. CHR '' '' # c @ [CHR '' '']) cells
       \<and> length (row_tokens (row_str cells)) = length cells
       \<and> map (\<lambda>token. butlast (tl token)) (row_tokens (row_str cells)) = cells"
proof -
  have "split tab (row_str cells) = [] # map (\<lambda>c. CHR '' '' # c @ [CHR '' '']) cells @ [[]]"
    using assms by (simp add: row_str_cells split_padded_cells)
  with assms(1) have "row_tokens (row_str cells) = map (\<lambda>c. CHR '' '' # c @ [CHR '' '']) cells"
    by (simp add: row_tokens_def discard_empty_ends_def)
  then show ?thesis by (simp add: o_def map_idI)
qed

theorem tab_split_padded_witness:
  "[''a'', ''b c''] \<noteq> [] \<and> tab \<notin> set ''a'' \<and> tab \<notin> set ''b c''
   \<and> row_tokens (row_str [''a'', ''b c'']) = ['' a '', '' b c '']"
  using tab_split_padded [of "[''a'', ''b c'']"] by (simp add: tab_def)

text \<open>
  The tokens are not the cells themselves: each keeps the space that the serializer puts
  on either side of a cell.
\<close>

theorem tab_split_counterexample:
  "row_tokens (row_str [''a'', ''b c'']) \<noteq> [''a'', ''b c'']"
  by (simp add: row_tokens_def discard_empty_ends_def row_str_def tab_def)

subsection \<open>Cell cleaning\<close>

lemma isspace_space: "isspace (CHR '' '')"
  by (simp add: isspace_def)

lemma strip_leading_space: "isspace c \<Longrightarrow> strip (c # s) = strip s"
  by (simp add: strip_def)

lemma strip_trailing_spaces:
  assumes "\<forall>c\<in>set w. isspace c"
  shows "strip (s @ w) = strip s"
proof (cases "\<forall>c\<in>set s. isspace c")
  case True
  with assms have "dropWhile isspace (s @ w) = []" and "dropWhile isspace s = []"
    by simp_all
  then show ?thesis by (simp only: strip_def)
next
  case False
  then obtain x where "x \<in> set s" "\<not> isspace x" by blast
  then have "dropWhile isspace (s @ w) = dropWhile isspace s @ w"
    by (intro dropWhile_append1)
  moreover have "dropWhile isspace (rev w @ rev (dropWhile isspace s)) =
        dropWhile isspace (rev (dropWhile isspace s))"
    using assms by (intro dropWhile_append2) simp
  ultimately show ?thesis by (simp add: strip_def)
qed

lemma re_sub_ws_leading:
  "strip (re_sub_ws (dropWhile isspace s)) = strip (re_sub_ws s)"
proof (cases s)
  case Nil
  then show ?thesis by simp
next
  case (Cons c cs)
  then show ?thesis by (simp add: strip_leading_space isspace_space)
qed

lemma re_sub_ws_trailing:
  assumes "b = [] \<or> \<not> isspace (last b)" and "\<forall>c\<in>set w. isspace c"
  shows "re_sub_ws (b @ w) = re_sub_ws b @ (if w = [] then [] else [CHR '' ''])"
  using assms
proof (induction b rule: re_sub_ws.induct)
  case 1
  show ?case
  proof (cases w)
    case Nil
    then show ?thesis by simp
  next
    case (Cons a list)
    with "1.prems"(2) have dw: "dropWhile isspace list = []" by simp
    from Cons "1.prems"(2) show ?thesis by (simp add: dw)
  qed
next
  case (2 c cs)
  show ?case
  proof (cases "isspace c")
    case True
    with "2.prems"(1) have cs: "cs \<noteq> []" "\<not> isspace (last cs)"
      by (auto split: if_splits)
    then have ex: "last cs \<in> set cs" "\<not> isspace (last cs)" by simp_all
    then have app: "dropWhile isspace (cs @ w) = dropWhile isspace cs @ w"
      by (intro dropWhile_append1)
    from ex have ne: "dropWhile isspace cs \<noteq> []" by auto
    then have "last (dropWhile isspace cs) = last cs" by (rule last_dropWhile)
    with cs have "dropWhile isspace cs = [] \<or> \<not> isspace (last (dropWhile isspace cs))"
      by simp
    from "2.IH"(1) [OF True this "2.prems"(2)] True app show ?thesis by simp
  next
    case False
    from "2.prems"(1) have "cs = [] \<or> \<not> isspace (last cs)" by (auto split: if_splits)
    from "2.IH"(2) [OF False this "2.prems"(2)] False show ?thesis by simp
  qed
qed

lemma unstripped_split:
  "\<exists>w. (\<forall>c\<in>set w. isspace c) \<and> dropWhile isspace s = strip s @ w
       \<and> (strip s = [] \<or> \<not> isspace (last (strip s)))"
proof -
  let ?d = "dropWhile isspace s"
  let ?w = "rev (takeWhile isspace (rev ?d))"
  have "strip s @ ?w = rev (takeWhile isspace (rev ?d) @ dropWhile isspace (rev ?d))"
    by (simp only: strip_def rev_append)
  also have "\<dots> = ?d" by simp
  finally have "?d = strip s @ ?w" by simp
  moreover have "\<forall>c\<in>set ?w. isspace c" by (auto dest: set_takeWhileD)
  moreover have "strip s = [] \<or> \<not> isspace (last (strip s))" using strip_ends [of s] by blast
  ultimately show ?thesis by blast
qed

lemma clean_of_stripped: "strip (re_sub_ws (strip s)) = strip (re_sub_ws s)"
proof -
  obtain w where w: "\<forall>c\<in>set w. isspace c" "dropWhile isspace s = strip s @ w"
    "strip s = [] \<or> \<not> isspace (last (strip s))"
    using unstripped_split by blast
  have "strip (re_sub_ws s) = strip (re_sub_ws (strip s @ w))"
    using w(2) re_sub_ws_leading [of s] by simp
  also have "\<dots> = strip (re_sub_ws (strip s) @ (if w = [] then [] else [CHR '' '']))"
    using re_sub_ws_trailing [OF w(3) w(1)] by simp
  also have "\<dots> = strip (re_sub_ws (strip s))"
    by (intro strip_trailing_spaces) (simp add: isspace_space)
  finally show ?thesis by simp
qed

text \<open>
  In the basic mode the cell of a text container is its raw text with every run of white
  space collapsed to one space and then trimmed, and a container whose cleaned text is
  empty gives no cell.
\<close>

lemma basic_cell_cleaning:
  "row_data_basic (collect_text_elements (LTTextContainer raw a b c d # es)) =
     (if strip (re_sub_ws raw) = [] then [] else [strip (re_sub_ws raw)])
       @ row_data_basic (collect_text_elements es)"
proof (cases "strip raw = []")
  case True
  with clean_of_stripped [of raw] have "strip (re_sub_ws raw) = []"
    by (simp add: strip_Nil)
  with True show ?thesis by simp
next
  case False
  then show ?thesis by (simp add: Let_def clean_of_stripped)
qed

text \<open>
  Claim C1. The cleaning rule is stated for both modes. The column-exact mode only trims:
  on a page whose one text container has the text \<^verbatim>\<open>"Total:\n  42 "\<close> it emits the
  cell \<^verbatim>\<open>"Total:\n  42"\<close>, with the newline and both spaces inside, where the claim
  and the basic mode give \<^verbatim>\<open>"Total: 42"\<close>.
\<close>

theorem enhanced_cell_not_cleaned:
  "extract_pdf_tables_enhanced [[LTTextContainer ''Total:\<newline>  42 '' 10 100 60 110]]
     = [tab, CHR '' ''] @ ''Total:\<newline>  42'' @ [CHR '' '', tab]
   \<and> extract_pdf_tables [[LTTextContainer ''Total:\<newline>  42 '' 10 100 60 110]]
     = [tab, CHR '' ''] @ ''Total: 42'' @ [CHR '' '', tab]"
  by (simp add: extract_pdf_tables_enhanced_def extract_pdf_tables_def
      processed_rows_enhanced_def rows_enhanced_def group_rows_enhanced_def
      column_boundaries_def boundary_step_def merged_columns_def merge_step_def
      row_data_enhanced_def page_tables_basic_def rows_basic_def group_rows_def
      row_str_def strip_def isspace_def Let_def)

end
